theory Spec2Isabelle
  imports Complex_Main
begin

section \<open>The rate limiter of the manager API (\<open>ai/backend/manager/api/ratelimit.py\<close>)\<close>

text \<open>
  The module consists of a Lua script, run atomically by the Redis server, and of an
  aiohttp middleware that calls the script for authorized requests. Both are embedded
  here: the script as a function on an explicit model of the Redis keyspace, the
  middleware as a function on the pair of that keyspace and the state of the downstream
  handler. Numbers of the Lua script (doubles) and the \<open>Decimal\<close> timestamp are
  exact rationals; integers are \<open>int\<close>.
\<close>

subsection \<open>Decimal rendering: Python's \<open>str\<close> and Lua's \<open>tostring\<close> on integers\<close>

definition digit :: "nat \<Rightarrow> char" where
  "digit d = ''0123456789'' ! d"

fun digit_chars :: "nat \<Rightarrow> string" where
  "digit_chars n =
     (if n < 10 then [digit n] else digit_chars (n div 10) @ [digit (n mod 10)])"

declare digit_chars.simps [simp del]

text \<open>Python's \<open>str\<close> on an \<open>int\<close>.\<close>

definition str :: "int \<Rightarrow> string" where
  "str i = (if i < 0 then CHR ''-'' # digit_chars (nat (- i)) else digit_chars (nat i))"

text \<open>
  Lua's \<open>tostring\<close> on a number that holds an integer. Lua prints with \<open>%.14g\<close>,
  which is the plain decimal rendering below \<open>10^14\<close> in absolute value; the request
  ids the script renders stay at or below \<open>10^12\<close>.
\<close>

definition tostring :: "int \<Rightarrow> string" where
  "tostring i = (if i < 0 then CHR ''-'' # digit_chars (nat (- i)) else digit_chars (nat i))"

subsection \<open>The Redis keyspace and the commands the script calls\<close>

text \<open>
  A sorted set is a list of (member, score) pairs with pairwise different members; the
  order of the list carries no meaning, since the script only removes by score and
  counts. A key holds an integer string, a sorted set or a value of another kind, together
  with its time to live in seconds (\<open>None\<close>: the key does not expire).
\<close>

type_synonym zset = "(string \<times> rat) list"

datatype rvalue = Rint int | Rzset zset | Rother

type_synonym store = "string \<rightharpoonup> (rvalue \<times> int option)"

datatype redis_error = WRONGTYPE | NOT_AN_INTEGER | OVERFLOW

type_synonym 'a redis_call = "store \<Rightarrow> (redis_error + 'a) \<times> store"

text \<open>\<open>redis.call\<close> raises on an error reply, which ends the script; the writes made so far stay.\<close>

definition and_then :: "'a redis_call \<Rightarrow> ('a \<Rightarrow> 'b redis_call) \<Rightarrow> 'b redis_call" where
  "and_then m f = (\<lambda>s. case m s of (Inl e, s') \<Rightarrow> (Inl e, s') | (Inr x, s') \<Rightarrow> f x s')"

definition INCR :: "string \<Rightarrow> int redis_call" where
  "INCR key = (\<lambda>s. case s key of
       None \<Rightarrow> (Inr 1, s(key \<mapsto> (Rint 1, None)))
     | Some (Rint c, t) \<Rightarrow>
         if c \<ge> 2 ^ 63 - 1 then (Inl OVERFLOW, s)
         else (Inr (c + 1), s(key \<mapsto> (Rint (c + 1), t)))
     | Some (Rzset z, t) \<Rightarrow> (Inl WRONGTYPE, s)
     | Some (Rother, t) \<Rightarrow> (Inl NOT_AN_INTEGER, s))"

definition SET :: "string \<Rightarrow> int \<Rightarrow> unit redis_call" where
  "SET key v = (\<lambda>s. (Inr (), s(key \<mapsto> (Rint v, None))))"

definition EXISTS :: "string \<Rightarrow> int redis_call" where
  "EXISTS key = (\<lambda>s. (Inr (if s key = None then 0 else 1), s))"

definition zset_remrangebyscore :: "zset \<Rightarrow> rat \<Rightarrow> rat \<Rightarrow> zset" where
  "zset_remrangebyscore z lo hi = filter (\<lambda>(m, sc). \<not> (lo \<le> sc \<and> sc \<le> hi)) z"

definition ZREMRANGEBYSCORE :: "string \<Rightarrow> rat \<Rightarrow> rat \<Rightarrow> int redis_call" where
  "ZREMRANGEBYSCORE key lo hi = (\<lambda>s. case s key of
       None \<Rightarrow> (Inr 0, s)
     | Some (Rzset z, t) \<Rightarrow>
         (let z' = zset_remrangebyscore z lo hi
          in (Inr (int (length z) - int (length z')),
              if z' = [] then s(key := None) else s(key \<mapsto> (Rzset z', t))))
     | Some (_, t) \<Rightarrow> (Inl WRONGTYPE, s))"

definition zset_add :: "zset \<Rightarrow> rat \<Rightarrow> string \<Rightarrow> zset" where
  "zset_add z score member = filter (\<lambda>(m, sc). m \<noteq> member) z @ [(member, score)]"

definition ZADD :: "string \<Rightarrow> rat \<Rightarrow> string \<Rightarrow> int redis_call" where
  "ZADD key score member = (\<lambda>s. case s key of
       None \<Rightarrow> (Inr 1, s(key \<mapsto> (Rzset [(member, score)], None)))
     | Some (Rzset z, t) \<Rightarrow>
         (Inr (if member \<in> fst ` set z then 0 else 1),
          s(key \<mapsto> (Rzset (zset_add z score member), t)))
     | Some (_, t) \<Rightarrow> (Inl WRONGTYPE, s))"

definition EXPIRE :: "string \<Rightarrow> int \<Rightarrow> int redis_call" where
  "EXPIRE key seconds = (\<lambda>s. case s key of
       None \<Rightarrow> (Inr 0, s)
     | Some (v, t) \<Rightarrow>
         if seconds \<le> 0 then (Inr 1, s(key := None))
         else (Inr 1, s(key \<mapsto> (v, Some seconds))))"

definition ZCARD :: "string \<Rightarrow> int redis_call" where
  "ZCARD key = (\<lambda>s. case s key of
       None \<Rightarrow> (Inr 0, s)
     | Some (Rzset z, t) \<Rightarrow> (Inr (int (length z)), s)
     | Some (_, t) \<Rightarrow> (Inl WRONGTYPE, s))"

subsection \<open>The script \<open>_rlim_script\<close>\<close>

definition request_id_key :: string where
  "request_id_key = ''__request_id''"

text \<open>
  \<open>KEYS[1]\<close> is the access key, \<open>ARGV[1]\<close> and \<open>ARGV[2]\<close> are the time and the
  window; the script reads them with \<open>tonumber\<close>, so they are passed as numbers here.
  \<open>rlim_script_body\<close> is the script from its second statement on, with the reply of
  \<open>INCR\<close> bound to \<open>request_id\<close>.
\<close>

definition rlim_script_body :: "string \<Rightarrow> rat \<Rightarrow> int \<Rightarrow> int \<Rightarrow> int redis_call" where
  "rlim_script_body access_key now window request_id =
     and_then (if request_id \<ge> 10 ^ 12 then SET request_id_key 1 else (\<lambda>s. (Inr (), s)))
       (\<lambda>_. and_then (EXISTS access_key)
         (\<lambda>ex. and_then
            (if ex = 1 then ZREMRANGEBYSCORE access_key 0 (now - of_int window)
             else (\<lambda>s. (Inr 0, s)))
           (\<lambda>_. and_then (ZADD access_key now (tostring request_id))
             (\<lambda>_. and_then (EXPIRE access_key window)
               (\<lambda>_. ZCARD access_key)))))"

definition rlim_script :: "string \<Rightarrow> rat \<Rightarrow> int \<Rightarrow> int redis_call" where
  "rlim_script access_key now window =
     and_then (INCR request_id_key) (rlim_script_body access_key now window)"

subsection \<open>The middleware \<open>rlim_middleware\<close>\<close>

definition rlim_window :: int where
  "rlim_window = 60 * 15"

record keypair =
  rate_limit :: int
  access_key :: string

record request =
  is_authorized :: bool
  keypair :: keypair

record response =
  status :: int
  headers :: "string \<rightharpoonup> string"

text \<open>
  What a call of the middleware raises: its own \<open>RateLimitExceeded\<close>, an error of the
  script call, or whatever the downstream handler raised.
\<close>

datatype 'x raised = RateLimitExceeded | ScriptError redis_error | HandlerRaised 'x

text \<open>
  The downstream handler works on a state \<open>'h\<close> of its own and returns a response or
  raises. \<open>redis.execute_script\<close> belongs to another package; the middleware takes it as
  a parameter: it gets the keys and arguments of the call and the Redis connection, and
  returns the reply (\<open>None\<close> for a null reply) or raises.
\<close>

type_synonym ('h, 'x) handler = "request \<Rightarrow> 'h \<Rightarrow> ('x + response) \<times> 'h"

type_synonym 'r execute_script = "string \<Rightarrow> rat \<Rightarrow> int \<Rightarrow> 'r \<Rightarrow> (redis_error + int option) \<times> 'r"

definition set_headers :: "response \<Rightarrow> string \<Rightarrow> string \<Rightarrow> string \<Rightarrow> response" where
  "set_headers resp limit remaining window =
     resp\<lparr>headers := (headers resp)
        (''X-RateLimit-Limit'' \<mapsto> limit,
         ''X-RateLimit-Remaining'' \<mapsto> remaining,
         ''X-RateLimit-Window'' \<mapsto> window)\<rparr>"

definition call_handler ::
  "('h, 'x) handler \<Rightarrow> request \<Rightarrow> string \<Rightarrow> string \<Rightarrow> string \<Rightarrow> 'r \<Rightarrow> 'h
     \<Rightarrow> ('x raised + response) \<times> ('r \<times> 'h)" where
  "call_handler handler req limit remaining window rr h =
     (case handler req h of
        (Inl x, h') \<Rightarrow> (Inl (HandlerRaised x), (rr, h'))
      | (Inr resp, h') \<Rightarrow> (Inr (set_headers resp limit remaining window), (rr, h')))"

definition rlim_middleware ::
  "'r execute_script \<Rightarrow> ('h, 'x) handler \<Rightarrow> rat \<Rightarrow> request \<Rightarrow> 'r \<times> 'h
     \<Rightarrow> ('x raised + response) \<times> ('r \<times> 'h)" where
  "rlim_middleware execute_script handler now req w =
     (case w of (rr, h) \<Rightarrow>
        if is_authorized req then
          (case execute_script (access_key (keypair req)) now rlim_window rr of
             (Inl e, rr') \<Rightarrow> (Inl (ScriptError e), (rr', h))
           | (Inr None, rr') \<Rightarrow>
               call_handler handler req (str (rate_limit (keypair req)))
                 (str (rate_limit (keypair req))) (str rlim_window) rr' h
           | (Inr (Some rolling_count), rr') \<Rightarrow>
               if rolling_count > rate_limit (keypair req) then (Inl RateLimitExceeded, (rr', h))
               else call_handler handler req (str (rate_limit (keypair req)))
                      (str (rate_limit (keypair req) - rolling_count)) (str rlim_window) rr' h)
        else
          call_handler handler req ''1000'' ''1000'' (str rlim_window) rr h)"

text \<open>
  The script call as the manager runs it: the script is executed atomically on the
  keyspace and its integer reply is handed back; an error reply is raised.
\<close>

definition redis_execute_script :: "store execute_script" where
  "redis_execute_script key now window = (\<lambda>s. case rlim_script key now window s of
       (Inl e, s') \<Rightarrow> (Inl e, s')
     | (Inr c, s') \<Rightarrow> (Inr (Some c), s'))"

subsection \<open>Reading the keyspace\<close>

text \<open>
  The value of the global request counter (an absent key counts as 0, as \<open>INCR\<close> takes
  it), the sorted set held under an access key (the window state of that identity) and
  the time to live of a key.
\<close>

definition counter :: "store \<Rightarrow> int" where
  "counter s = (case s request_id_key of Some (Rint c, t) \<Rightarrow> c | _ \<Rightarrow> 0)"

definition window_state :: "store \<Rightarrow> string \<Rightarrow> zset" where
  "window_state s key = (case s key of Some (Rzset z, t) \<Rightarrow> z | _ \<Rightarrow> [])"

definition ttl :: "store \<Rightarrow> string \<Rightarrow> int option" where
  "ttl s key = (case s key of Some (v, t) \<Rightarrow> t | None \<Rightarrow> None)"

text \<open>
  The keyspace as the script itself leaves it. The counter key is absent or holds an
  integer from 0 to \<open>10^12 - 1\<close>: the script is its only writer, starts it at 1 and
  resets it when it gets to \<open>10^12\<close>. An access key differs from the counter key and is
  absent or holds a sorted set, whose members are pairwise different.
\<close>

definition counter_ok :: "store \<Rightarrow> bool" where
  "counter_ok s = (case s request_id_key of
       None \<Rightarrow> True
     | Some (Rint c, t) \<Rightarrow> 0 \<le> c \<and> c < 10 ^ 12
     | Some (_, t) \<Rightarrow> False)"

definition window_ok :: "store \<Rightarrow> string \<Rightarrow> bool" where
  "window_ok s key = (key \<noteq> request_id_key \<and>
     (case s key of
        None \<Rightarrow> True
      | Some (Rzset z, t) \<Rightarrow> distinct (map fst z)
      | Some (_, t) \<Rightarrow> False))"

text \<open>What one run of the script makes of the counter: \<open>INCR\<close>, then the reset.\<close>

definition next_counter :: "int \<Rightarrow> int" where
  "next_counter c = (if c + 1 \<ge> 10 ^ 12 then 1 else c + 1)"

subsection \<open>Sequences of admission checks\<close>

text \<open>
  The server runs scripts one at a time, so a history of admission checks is a list of
  calls (access key, time), each run on the keyspace the previous one left.
  \<open>run_checks\<close> gives the replies and the final keyspace, \<open>request_ids\<close> the replies
  of the \<open>INCR\<close> that opens each run, which are the request ids of the calls.
\<close>

fun run_checks :: "store \<Rightarrow> (string \<times> rat) list \<Rightarrow> (redis_error + int) list \<times> store" where
  "run_checks s [] = ([], s)"
| "run_checks s (e # evs) =
     (case rlim_script (fst e) (snd e) rlim_window s of
        (r, s') \<Rightarrow> (case run_checks s' evs of (rs, s'') \<Rightarrow> (r # rs, s'')))"

fun request_ids :: "store \<Rightarrow> (string \<times> rat) list \<Rightarrow> (redis_error + int) list" where
  "request_ids s [] = []"
| "request_ids s (e # evs) =
     fst (INCR request_id_key s) # request_ids (snd (rlim_script (fst e) (snd e) rlim_window s)) evs"

definition calls_of :: "string \<Rightarrow> (string \<times> rat) list \<Rightarrow> nat" where
  "calls_of key evs = length (filter (\<lambda>e. fst e = key) evs)"

text \<open>All calls of an identity fall into one window \<open>(b, b + 900]\<close>.\<close>

definition in_one_window :: "string \<Rightarrow> rat \<Rightarrow> (string \<times> rat) list \<Rightarrow> bool" where
  "in_one_window key b evs =
     list_all (\<lambda>e. fst e = key \<longrightarrow> b < snd e \<and> snd e \<le> b + of_int rlim_window) evs"

section \<open>Properties\<close>

subsection \<open>Decimal rendering\<close>

lemma str_window: "str rlim_window = ''900''"
  by (simp add: str_def rlim_window_def digit_chars.simps digit_def)

lemma digit_inj: "d < 10 \<Longrightarrow> e < 10 \<Longrightarrow> digit d = digit e \<Longrightarrow> d = e"
proof -
  assume d: "d < 10" and e: "e < 10" and eq: "digit d = digit e"
  have D: "d \<in> {0, 1, 2, 3, 4, 5, 6, 7, 8, 9}" using d by auto
  have E: "e \<in> {0, 1, 2, 3, 4, 5, 6, 7, 8, 9}" using e by auto
  from D E eq show "d = e"
    by (auto simp: digit_def)
qed

lemma digit_chars_nonempty: "digit_chars n \<noteq> []"
  by (subst digit_chars.simps) simp

lemma digit_chars_inj: "digit_chars n = digit_chars m \<Longrightarrow> n = m"
proof (induction n arbitrary: m rule: digit_chars.induct)
  case (1 n)
  show ?case
  proof (cases "n < 10")
    case True
    then have n: "digit_chars n = [digit n]"
      by (subst digit_chars.simps) simp
    show ?thesis
    proof (cases "m < 10")
      case m: True
      then have "digit_chars m = [digit m]"
        by (subst digit_chars.simps) simp
      with n "1.prems" have "digit n = digit m" by simp
      with True m show ?thesis by (rule digit_inj)
    next
      case False
      then have "digit_chars m = digit_chars (m div 10) @ [digit (m mod 10)]"
        by (subst digit_chars.simps) simp
      with n "1.prems" have "digit_chars (m div 10) = []" by simp
      then show ?thesis by (simp add: digit_chars_nonempty)
    qed
  next
    case False
    then have n: "digit_chars n = digit_chars (n div 10) @ [digit (n mod 10)]"
      by (subst digit_chars.simps) simp
    show ?thesis
    proof (cases "m < 10")
      case True
      then have "digit_chars m = [digit m]"
        by (subst digit_chars.simps) simp
      with n "1.prems" have "digit_chars (n div 10) = []" by simp
      then show ?thesis by (simp add: digit_chars_nonempty)
    next
      case m: False
      then have "digit_chars m = digit_chars (m div 10) @ [digit (m mod 10)]"
        by (subst digit_chars.simps) simp
      with n "1.prems" have eq: "digit_chars (n div 10) = digit_chars (m div 10)"
        and dg: "digit (n mod 10) = digit (m mod 10)" by simp_all
      from "1.IH" [OF False eq] have q: "n div 10 = m div 10" .
      from dg have r: "n mod 10 = m mod 10" by (intro digit_inj) simp_all
      have "n = 10 * (n div 10) + n mod 10" by simp
      also have "\<dots> = 10 * (m div 10) + m mod 10" using q r by simp
      also have "\<dots> = m" by simp
      finally show ?thesis .
    qed
  qed
qed

lemma tostring_inj: "0 \<le> a \<Longrightarrow> 0 \<le> b \<Longrightarrow> tostring a = tostring b \<Longrightarrow> a = b"
  using digit_chars_inj [of "nat a" "nat b"] by (simp add: tostring_def)

subsection \<open>One run of the script\<close>

lemmas script_defs =
  rlim_script_def rlim_script_body_def and_then_def INCR_def SET_def EXISTS_def
  ZREMRANGEBYSCORE_def ZADD_def EXPIRE_def ZCARD_def Let_def

lemma rlim_window_900: "rlim_window = 900"
  by (simp add: rlim_window_def)

lemma zset_add_nonempty: "zset_add z sc m \<noteq> []"
  by (simp add: zset_add_def)

lemma zset_add_Nil: "zset_add [] sc m = [(m, sc)]"
  by (simp add: zset_add_def)

lemma zset_remrange_Nil: "zset_remrangebyscore [] lo hi = []"
  by (simp add: zset_remrangebyscore_def)

lemma zset_add_fresh: "m \<notin> fst ` set z \<Longrightarrow> zset_add z sc m = z @ [(m, sc)]"
proof -
  assume "m \<notin> fst ` set z"
  then have "filter (\<lambda>(m', sc'). m' \<noteq> m) z = z"
    by (intro filter_True) force
  then show ?thesis by (simp add: zset_add_def)
qed

lemma zset_add_member: "(m, sc) \<in> set (zset_add z sc m)"
  by (simp add: zset_add_def)

lemma set_zset_add:
  "set (zset_add z sc m) = {(m', sc'). (m', sc') \<in> set z \<and> m' \<noteq> m} \<union> {(m, sc)}"
  by (auto simp: zset_add_def)

lemma set_zset_remrange:
  "set (zset_remrangebyscore z lo hi) = {(m, sc). (m, sc) \<in> set z \<and> \<not> (lo \<le> sc \<and> sc \<le> hi)}"
  by (auto simp: zset_remrangebyscore_def)

lemma zset_remrange_keeps_all:
  "\<forall>(m, sc) \<in> set z. \<not> (lo \<le> sc \<and> sc \<le> hi) \<Longrightarrow> zset_remrangebyscore z lo hi = z"
  unfolding zset_remrangebyscore_def by (intro filter_True) auto

lemma distinct_zset_remrange:
  "distinct (map fst z) \<Longrightarrow> distinct (map fst (zset_remrangebyscore z lo hi))"
  by (simp add: zset_remrangebyscore_def distinct_map_filter)

lemma distinct_zset_add:
  "distinct (map fst z) \<Longrightarrow> distinct (map fst (zset_add z sc m))"
  by (auto simp: zset_add_def distinct_map_filter)

text \<open>The counter moves by \<open>next_counter\<close> on every run, whatever the access key holds.\<close>

lemma script_counter:
  assumes "counter_ok s"
  shows "counter (snd (rlim_script key now window s)) = next_counter (counter s)"
    and "counter_ok (snd (rlim_script key now window s))"
    and "fst (INCR request_id_key s) = Inr (counter s + 1)"
  using assms
  by (auto simp: script_defs counter_def counter_ok_def next_counter_def zset_add_nonempty
      split: option.splits rvalue.splits prod.splits if_splits sum.splits)

text \<open>A run writes the counter key and its own access key only.\<close>

lemma script_frame:
  assumes "k' \<noteq> key" "k' \<noteq> request_id_key"
  shows "snd (rlim_script key now window s) k' = s k'"
  using assms
  by (auto simp: script_defs split: option.splits rvalue.splits prod.splits if_splits sum.splits)

text \<open>On a keyspace as the script leaves it, a run succeeds; its reply and the new window state.\<close>

lemma script_ok:
  assumes "counter_ok s" "window_ok s key" "0 < window"
  shows "\<exists>s'. rlim_script key now window s =
           (Inr (int (length (zset_add (zset_remrangebyscore (window_state s key) 0 (now - of_int window))
                      now (tostring (counter s + 1))))), s')
         \<and> s' key = Some (Rzset (zset_add (zset_remrangebyscore (window_state s key) 0 (now - of_int window))
                      now (tostring (counter s + 1))), Some window)"
  using assms
  by (auto simp: script_defs counter_def counter_ok_def window_ok_def
      window_state_def zset_add_nonempty zset_add_Nil zset_remrange_Nil
      split: option.splits rvalue.splits prod.splits if_splits sum.splits)

lemma script_window_ok:
  assumes "window_ok s k'"
  shows "window_ok (snd (rlim_script key now window s)) k'"
proof (cases "k' = key")
  case False
  with assms show ?thesis
    by (simp add: window_ok_def script_frame)
next
  case True
  with assms show ?thesis
    by (auto simp: script_defs window_ok_def zset_add_nonempty
        distinct_zset_add distinct_zset_remrange
        split: option.splits rvalue.splits prod.splits if_splits sum.splits)
qed

subsection \<open>Claims on one admission check\<close>

text \<open>
  C3. On every admission check the entries of the window state scored at or below
  \<open>now - window\<close> are removed before the new entry is inserted and before the
  cardinality is taken: the window state after the check consists of the old entries
  scored above \<open>now - 900\<close> (but for one with the new member, which the insertion
  replaces) and of the new entry, the reply is the number of these entries, and every
  counted entry is scored above \<open>now - 900\<close>. On the first admission of an identity (no
  key yet) nothing is pruned, the script does not fail and replies 1. Scores are Unix
  times, hence not negative; the keyspace is as the script leaves it.
\<close>

theorem pruning_precedes_counting:
  assumes "counter_ok s" and "window_ok s key"
    and "list_all (\<lambda>(m, sc). 0 \<le> sc) (window_state s key)"
  shows "\<exists>c s'. rlim_script key now rlim_window s = (Inr c, s')
      \<and> set (window_state s' key) =
          {(m, sc). (m, sc) \<in> set (window_state s key) \<and> now - 900 < sc
             \<and> m \<noteq> tostring (counter s + 1)} \<union> {(tostring (counter s + 1), now)}
      \<and> c = int (card (set (window_state s' key)))
      \<and> list_all (\<lambda>(m, sc). now - 900 < sc) (window_state s' key)
      \<and> (s key = None \<longrightarrow> c = 1 \<and> window_state s' key = [(tostring (counter s + 1), now)])"
proof -
  let ?z = "zset_add (zset_remrangebyscore (window_state s key) 0 (now - of_int rlim_window))
              now (tostring (counter s + 1))"
  from script_ok [OF assms(1,2), of rlim_window now]
  obtain s' where run: "rlim_script key now rlim_window s = (Inr (int (length ?z)), s')"
    and key: "s' key = Some (Rzset ?z, Some rlim_window)"
    by (auto simp: rlim_window_900)
  have ws: "window_state s' key = ?z"
    by (simp add: window_state_def key)
  have nonneg: "\<And>m sc. (m, sc) \<in> set (window_state s key) \<Longrightarrow> 0 \<le> sc"
    using assms(3) by (auto simp: list_all_iff)
  have set_eq: "set ?z =
          {(m, sc). (m, sc) \<in> set (window_state s key) \<and> now - 900 < sc
             \<and> m \<noteq> tostring (counter s + 1)} \<union> {(tostring (counter s + 1), now)}"
    using nonneg by (auto simp: set_zset_add set_zset_remrange rlim_window_900)
  have "distinct (map fst (window_state s key))"
    using assms(2) by (auto simp: window_ok_def window_state_def split: option.splits rvalue.splits)
  then have "distinct (map fst ?z)"
    by (intro distinct_zset_add distinct_zset_remrange)
  then have "distinct ?z"
    by (rule distinct_map [THEN iffD1, THEN conjunct1])
  then have card: "length ?z = card (set ?z)"
    by (simp add: distinct_card)
  have recent: "list_all (\<lambda>(m, sc). now - 900 < sc) ?z"
    unfolding list_all_iff set_eq by auto
  have first: "s key = None \<Longrightarrow> ?z = [(tostring (counter s + 1), now)]"
    by (simp add: window_state_def zset_remrange_Nil zset_add_Nil)
  show ?thesis
    using run ws set_eq card recent first by auto
qed

theorem pruning_precedes_counting_witness:
  "counter_ok [request_id_key \<mapsto> (Rint 41, None),
       ''AKIAEXAMPLE'' \<mapsto> (Rzset [(''7'', 1000), (''40'', 1700)], Some 300)]
   \<and> window_ok [request_id_key \<mapsto> (Rint 41, None),
       ''AKIAEXAMPLE'' \<mapsto> (Rzset [(''7'', 1000), (''40'', 1700)], Some 300)] ''AKIAEXAMPLE''
   \<and> fst (rlim_script ''AKIAEXAMPLE'' 2000 rlim_window [request_id_key \<mapsto> (Rint 41, None),
       ''AKIAEXAMPLE'' \<mapsto> (Rzset [(''7'', 1000), (''40'', 1700)], Some 300)]) = Inr 2"
proof -
  let ?s = "[request_id_key \<mapsto> (Rint 41, None),
       ''AKIAEXAMPLE'' \<mapsto> (Rzset [(''7'', 1000), (''40'', 1700)], Some 300)]"
  have c: "counter_ok ?s"
    by (simp add: counter_ok_def request_id_key_def)
  have w: "window_ok ?s ''AKIAEXAMPLE''"
    by (simp add: window_ok_def request_id_key_def)
  have n: "list_all (\<lambda>(m, sc). 0 \<le> sc) (window_state ?s ''AKIAEXAMPLE'')"
    by (simp add: window_state_def request_id_key_def)
  have ws: "window_state ?s ''AKIAEXAMPLE'' = [(''7'', 1000), (''40'', 1700)]"
    by (simp add: window_state_def request_id_key_def)
  have cnt: "counter ?s = 41"
    by (simp add: counter_def request_id_key_def)
  have t42: "tostring 42 = ''42''"
    by (simp add: tostring_def digit_chars.simps digit_def)
  have set42: "{(m, sc). (m, sc) \<in> set [(''7'', 1000::rat), (''40'', 1700)] \<and> 2000 - 900 < sc
             \<and> m \<noteq> ''42''} \<union> {(''42'', 2000)} = {(''40'', 1700), (''42'', 2000)}"
    by auto
  from pruning_precedes_counting [OF c w n, of 2000]
  obtain k s' where "rlim_script ''AKIAEXAMPLE'' 2000 rlim_window ?s = (Inr k, s')"
    and "set (window_state s' ''AKIAEXAMPLE'') = {(''40'', 1700), (''42'', 2000)}"
    and "k = int (card (set (window_state s' ''AKIAEXAMPLE'')))"
    unfolding ws cnt using t42 set42 by auto
  then have "fst (rlim_script ''AKIAEXAMPLE'' 2000 rlim_window ?s) = Inr 2"
    by simp
  with c w show ?thesis by simp
qed

text \<open>
  C5. The global request counter is incremented on every admission check (whatever
  the access key holds, and whether or not the rest of the script fails); when the
  incremented value reaches \<open>10^12\<close> the counter is set back to 1, and the next caller
  continues from 1: its \<open>INCR\<close> replies 2.
\<close>

theorem counter_increment_and_reset:
  assumes "counter_ok s"
  shows "fst (INCR request_id_key s) = Inr (counter s + 1)
      \<and> counter (snd (rlim_script key now window s)) =
          (if counter s + 1 \<ge> 10 ^ 12 then 1 else counter s + 1)
      \<and> counter_ok (snd (rlim_script key now window s))
      \<and> (counter s + 1 \<ge> 10 ^ 12 \<longrightarrow>
           counter (snd (rlim_script key now window s)) = 1
         \<and> fst (INCR request_id_key (snd (rlim_script key now window s))) = Inr 2)"
proof -
  let ?s' = "snd (rlim_script key now window s)"
  have a: "fst (INCR request_id_key s) = Inr (counter s + 1)"
    and b: "counter ?s' = next_counter (counter s)"
    and c: "counter_ok ?s'"
    using script_counter [OF assms] by simp_all
  have d: "fst (INCR request_id_key ?s') = Inr (counter ?s' + 1)"
    using script_counter(3) [OF c] .
  show ?thesis
    using a b c d by (simp add: next_counter_def)
qed

theorem counter_increment_and_reset_witness:
  "counter_ok [request_id_key \<mapsto> (Rint 999999999999, None)]
   \<and> fst (INCR request_id_key [request_id_key \<mapsto> (Rint 999999999999, None)]) = Inr 1000000000000
   \<and> counter (snd (rlim_script ''AKIAEXAMPLE'' 1700000000 rlim_window
        [request_id_key \<mapsto> (Rint 999999999999, None)])) = 1
   \<and> fst (INCR request_id_key (snd (rlim_script ''AKIAEXAMPLE'' 1700000000 rlim_window
        [request_id_key \<mapsto> (Rint 999999999999, None)]))) = Inr 2"
proof -
  let ?s = "[request_id_key \<mapsto> (Rint 999999999999, None)]"
  have c: "counter_ok ?s"
    by (simp add: counter_ok_def)
  have cnt: "counter ?s = 999999999999"
    by (simp add: counter_def)
  from counter_increment_and_reset [OF c, of "''AKIAEXAMPLE''" 1700000000 rlim_window] c
  show ?thesis
    unfolding cnt by simp
qed

text \<open>
  C8. Immediately after every admission check the time to live of the identity's
  window key is exactly the window length, 900 seconds: the check succeeds and leaves
  the key with that time to live, whatever it was before.
\<close>

theorem ttl_is_window_after_check:
  assumes "counter_ok s" and "window_ok s key"
  shows "(\<exists>c. fst (rlim_script key now rlim_window s) = Inr c)
      \<and> ttl (snd (rlim_script key now rlim_window s)) key = Some 900"
  using script_ok [OF assms, of rlim_window now]
  by (auto simp: rlim_window_900 ttl_def)

theorem ttl_is_window_after_check_witness:
  "counter_ok [request_id_key \<mapsto> (Rint 41, None),
       ''AKIAEXAMPLE'' \<mapsto> (Rzset [(''7'', 1000), (''40'', 1700)], Some 300)]
   \<and> window_ok [request_id_key \<mapsto> (Rint 41, None),
       ''AKIAEXAMPLE'' \<mapsto> (Rzset [(''7'', 1000), (''40'', 1700)], Some 300)] ''AKIAEXAMPLE''
   \<and> ttl [request_id_key \<mapsto> (Rint 41, None),
       ''AKIAEXAMPLE'' \<mapsto> (Rzset [(''7'', 1000), (''40'', 1700)], Some 300)] ''AKIAEXAMPLE'' = Some 300
   \<and> ttl (snd (rlim_script ''AKIAEXAMPLE'' 2000 rlim_window [request_id_key \<mapsto> (Rint 41, None),
       ''AKIAEXAMPLE'' \<mapsto> (Rzset [(''7'', 1000), (''40'', 1700)], Some 300)])) ''AKIAEXAMPLE'' = Some 900"
proof -
  let ?s = "[request_id_key \<mapsto> (Rint 41, None),
       ''AKIAEXAMPLE'' \<mapsto> (Rzset [(''7'', 1000), (''40'', 1700)], Some 300)]"
  have c: "counter_ok ?s"
    by (simp add: counter_ok_def request_id_key_def)
  have w: "window_ok ?s ''AKIAEXAMPLE''"
    by (simp add: window_ok_def request_id_key_def)
  have t: "ttl ?s ''AKIAEXAMPLE'' = Some 300"
    by (simp add: ttl_def request_id_key_def)
  from ttl_is_window_after_check [OF c w, of 2000] c w t
  show ?thesis by simp
qed

subsection \<open>Claims on the middleware\<close>

lemmas middleware_defs = rlim_middleware_def call_handler_def set_headers_def

text \<open>
  C4. For an authorized request that is admitted with rolling count \<open>c \<le> quota\<close> and
  whose handler returns a response, the middleware returns that response with the headers
  \<open>X-RateLimit-Limit = str quota\<close>, \<open>X-RateLimit-Remaining = str (quota - c)\<close> and
  \<open>X-RateLimit-Window = 900\<close>, and the remaining value is not negative.
\<close>

theorem admitted_response_headers:
  assumes "is_authorized req"
    and "execute_script (access_key (keypair req)) now rlim_window rr = (Inr (Some c), rr')"
    and "c \<le> rate_limit (keypair req)"
    and "handler req h = (Inr resp, h')"
  shows "rlim_middleware execute_script handler now req (rr, h) =
           (Inr (resp\<lparr>headers := (headers resp)
              (''X-RateLimit-Limit'' \<mapsto> str (rate_limit (keypair req)),
               ''X-RateLimit-Remaining'' \<mapsto> str (rate_limit (keypair req) - c),
               ''X-RateLimit-Window'' \<mapsto> ''900'')\<rparr>), (rr', h'))
      \<and> 0 \<le> rate_limit (keypair req) - c
      \<and> str (rate_limit (keypair req) - c) = digit_chars (nat (rate_limit (keypair req) - c))"
  using assms by (simp add: middleware_defs str_window) (simp add: str_def)

theorem admitted_response_headers_witness:
  "is_authorized \<lparr>is_authorized = True, keypair = \<lparr>rate_limit = 5, access_key = ''AKIAEXAMPLE''\<rparr>\<rparr>
   \<and> fst (rlim_middleware redis_execute_script
        (\<lambda>req h. (Inr \<lparr>status = 200, headers = Map.empty\<rparr>, Suc h)) 1700000000
        \<lparr>is_authorized = True, keypair = \<lparr>rate_limit = 5, access_key = ''AKIAEXAMPLE''\<rparr>\<rparr>
        (Map.empty, 0 :: nat))
     = (Inr \<lparr>status = 200, headers =
          [''X-RateLimit-Limit'' \<mapsto> ''5'', ''X-RateLimit-Remaining'' \<mapsto> ''4'',
           ''X-RateLimit-Window'' \<mapsto> ''900'']\<rparr> :: unit raised + response)"
proof -
  let ?req = "\<lparr>is_authorized = True, keypair = \<lparr>rate_limit = 5, access_key = ''AKIAEXAMPLE''\<rparr>\<rparr>"
  let ?handler = "\<lambda>(req :: request) (h :: nat).
      (Inr \<lparr>status = 200, headers = Map.empty\<rparr> :: unit + response, Suc h)"
  have auth: "is_authorized ?req" by simp
  obtain rr' where run: "redis_execute_script (access_key (keypair ?req)) 1700000000 rlim_window Map.empty
      = (Inr (Some 1), rr')"
    by (simp add: redis_execute_script_def script_defs rlim_window_900 request_id_key_def)
  have le: "1 \<le> rate_limit (keypair ?req)" by simp
  have hd: "?handler ?req 0 = (Inr \<lparr>status = 200, headers = Map.empty\<rparr>, Suc 0)" by simp
  have s5: "str 5 = ''5''" and s4: "str 4 = ''4''"
    by (simp_all add: str_def digit_chars.simps digit_def)
  from admitted_response_headers [where req = "?req" and execute_script = redis_execute_script
      and now = 1700000000 and rr = Map.empty and rr' = rr' and c = 1 and handler = "?handler"
      and h = 0 and resp = "\<lparr>status = 200, headers = Map.empty\<rparr>" and h' = "Suc 0",
      OF auth run le hd]
  have "fst (rlim_middleware redis_execute_script ?handler 1700000000 ?req (Map.empty, 0))
     = Inr \<lparr>status = 200, headers =
          [''X-RateLimit-Limit'' \<mapsto> ''5'', ''X-RateLimit-Remaining'' \<mapsto> ''4'',
           ''X-RateLimit-Window'' \<mapsto> ''900'']\<rparr>"
    by (simp add: s5 s4)
  with auth show ?thesis by simp
qed

text \<open>
  C7. For an unauthenticated request the middleware does not call the script and does
  not touch the keyspace: whatever the script executor and the keyspace are, the result
  is that of the downstream handler on the same request, with exactly the headers
  \<open>X-RateLimit-Limit = 1000\<close>, \<open>X-RateLimit-Remaining = 1000\<close> and
  \<open>X-RateLimit-Window = 900\<close> set on its response, and the keyspace is returned as it was.
\<close>

theorem unauthorized_skips_store:
  assumes "\<not> is_authorized req"
  shows "rlim_middleware execute_script handler now req (rr, h) =
           (case handler req h of
              (Inl x, h') \<Rightarrow> (Inl (HandlerRaised x), (rr, h'))
            | (Inr resp, h') \<Rightarrow>
                (Inr (resp\<lparr>headers := (headers resp)
                   (''X-RateLimit-Limit'' \<mapsto> ''1000'',
                    ''X-RateLimit-Remaining'' \<mapsto> ''1000'',
                    ''X-RateLimit-Window'' \<mapsto> ''900'')\<rparr>), (rr, h')))"
  using assms by (auto simp: middleware_defs str_window split: prod.splits sum.splits)

theorem unauthorized_skips_store_witness:
  "rlim_middleware redis_execute_script
     (\<lambda>req h. (Inr \<lparr>status = 200, headers = Map.empty\<rparr> :: unit + response, Suc h)) 1700000000
     \<lparr>is_authorized = False, keypair = \<lparr>rate_limit = 0, access_key = ''AKIAEXAMPLE''\<rparr>\<rparr>
     ([''AKIAEXAMPLE'' \<mapsto> (Rzset [(''7'', 1699999999)], Some 300)], 0 :: nat)
   = (Inr \<lparr>status = 200, headers =
          [''X-RateLimit-Limit'' \<mapsto> ''1000'', ''X-RateLimit-Remaining'' \<mapsto> ''1000'',
           ''X-RateLimit-Window'' \<mapsto> ''900'']\<rparr>,
      ([''AKIAEXAMPLE'' \<mapsto> (Rzset [(''7'', 1699999999)], Some 300)], 1))"
proof -
  let ?req = "\<lparr>is_authorized = False, keypair = \<lparr>rate_limit = 0, access_key = ''AKIAEXAMPLE''\<rparr>\<rparr>"
  have unauth: "\<not> is_authorized ?req" by simp
  show ?thesis
    by (subst unauthorized_skips_store [OF unauth]) simp
qed

text \<open>
  C10. If the script call returns a null reply for an authorized request, the
  middleware does not compare anything with the quota and never raises
  \<open>RateLimitExceeded\<close>: the request goes to the downstream handler and the response
  carries \<open>X-RateLimit-Remaining\<close> equal to the full quota.
\<close>

theorem null_reply_is_admitted:
  assumes "is_authorized req"
    and "execute_script (access_key (keypair req)) now rlim_window rr = (Inr None, rr')"
  shows "rlim_middleware execute_script handler now req (rr, h) =
           (case handler req h of
              (Inl x, h') \<Rightarrow> (Inl (HandlerRaised x), (rr', h'))
            | (Inr resp, h') \<Rightarrow>
                (Inr (resp\<lparr>headers := (headers resp)
                   (''X-RateLimit-Limit'' \<mapsto> str (rate_limit (keypair req)),
                    ''X-RateLimit-Remaining'' \<mapsto> str (rate_limit (keypair req)),
                    ''X-RateLimit-Window'' \<mapsto> ''900'')\<rparr>), (rr', h')))
      \<and> fst (rlim_middleware execute_script handler now req (rr, h)) \<noteq> Inl RateLimitExceeded"
  using assms by (auto simp: middleware_defs str_window split: prod.splits sum.splits)

theorem null_reply_is_admitted_witness:
  "rlim_middleware (\<lambda>key now window rr. (Inr None, rr))
     (\<lambda>req h. (Inr \<lparr>status = 200, headers = Map.empty\<rparr> :: unit + response, Suc h)) 1700000000
     \<lparr>is_authorized = True, keypair = \<lparr>rate_limit = 0, access_key = ''AKIAEXAMPLE''\<rparr>\<rparr>
     (Map.empty :: store, 0 :: nat)
   = (Inr \<lparr>status = 200, headers =
          [''X-RateLimit-Limit'' \<mapsto> ''0'', ''X-RateLimit-Remaining'' \<mapsto> ''0'',
           ''X-RateLimit-Window'' \<mapsto> ''900'']\<rparr>,
      (Map.empty, 1))"
proof -
  let ?req = "\<lparr>is_authorized = True, keypair = \<lparr>rate_limit = 0, access_key = ''AKIAEXAMPLE''\<rparr>\<rparr>"
  let ?exec = "\<lambda>(key :: string) (now :: rat) (window :: int) (rr :: store).
      (Inr None :: redis_error + int option, rr)"
  let ?handler = "\<lambda>(req :: request) (h :: nat).
      (Inr \<lparr>status = 200, headers = Map.empty\<rparr> :: unit + response, Suc h)"
  have auth: "is_authorized ?req" by simp
  have run: "?exec (access_key (keypair ?req)) 1700000000 rlim_window Map.empty = (Inr None, Map.empty)"
    by simp
  have s0: "str 0 = ''0''"
    by (simp add: str_def digit_chars.simps digit_def)
  from null_reply_is_admitted [where req = "?req" and execute_script = "?exec"
      and now = 1700000000 and rr = Map.empty and rr' = Map.empty and handler = "?handler"
      and h = 0, OF auth run]
  show ?thesis
    by (simp add: s0)
qed

subsection \<open>Histories of admission checks\<close>

lemma counter_ok_range: "counter_ok s \<Longrightarrow> 0 \<le> counter s \<and> counter s < 10 ^ 12"
  by (auto simp: counter_ok_def counter_def split: option.splits rvalue.splits)

lemma next_counter_range:
  "0 \<le> c \<Longrightarrow> c < 10 ^ 12 \<Longrightarrow> 0 \<le> next_counter c \<and> next_counter c < 10 ^ 12"
  by (simp add: next_counter_def)

lemma next_counter_mod:
  assumes "0 \<le> c" "c < 10 ^ 12"
  shows "next_counter c mod (10 ^ 12 - 1) = (c + 1) mod (10 ^ 12 - 1)"
proof (cases "c + 1 \<ge> 10 ^ 12")
  case True
  with assms have "c = 10 ^ 12 - 1" by simp
  then show ?thesis by (simp add: next_counter_def)
next
  case False
  then show ?thesis by (simp add: next_counter_def)
qed

lemma iter_counter_range:
  "0 \<le> c \<Longrightarrow> c < 10 ^ 12 \<Longrightarrow>
     0 \<le> (next_counter ^^ n) c \<and> (next_counter ^^ n) c < 10 ^ 12"
proof (induction n)
  case 0
  then show ?case by simp
next
  case (Suc n)
  from Suc.IH [OF Suc.prems] have "0 \<le> (next_counter ^^ n) c" "(next_counter ^^ n) c < 10 ^ 12"
    by simp_all
  from next_counter_range [OF this] show ?case by simp
qed

lemma iter_counter_mod:
  assumes "0 \<le> c" "c < 10 ^ 12"
  shows "(next_counter ^^ n) c mod (10 ^ 12 - 1) = (c + int n) mod (10 ^ 12 - 1)"
proof (induction n)
  case 0
  show ?case by simp
next
  case (Suc n)
  let ?d = "(next_counter ^^ n) c"
  have "next_counter ?d mod (10 ^ 12 - 1) = (?d + 1) mod (10 ^ 12 - 1)"
    using iter_counter_range [OF assms, of n] by (intro next_counter_mod) simp_all
  also have "\<dots> = (?d mod (10 ^ 12 - 1) + 1) mod (10 ^ 12 - 1)"
    by (simp add: mod_add_left_eq)
  also have "\<dots> = ((c + int n) mod (10 ^ 12 - 1) + 1) mod (10 ^ 12 - 1)"
    by (simp only: Suc.IH)
  also have "\<dots> = ((c + int n) + 1) mod (10 ^ 12 - 1)"
    by (rule mod_add_left_eq)
  also have "(c + int n) + 1 = c + int (Suc n)"
    by simp
  finally show ?case by simp
qed

lemma iter_counter_distinct:
  assumes c: "0 \<le> c" "c < 10 ^ 12" and ij: "i < j" "j < i + (10 ^ 12 - 1)"
  shows "(next_counter ^^ i) c \<noteq> (next_counter ^^ j) c"
proof
  assume "(next_counter ^^ i) c = (next_counter ^^ j) c"
  then have "(c + int i) mod (10 ^ 12 - 1) = (c + int j) mod (10 ^ 12 - 1)"
    using iter_counter_mod [OF c, of i] iter_counter_mod [OF c, of j] by simp
  then have "(c + int j) mod (10 ^ 12 - 1) = (c + int i) mod (10 ^ 12 - 1)"
    by (rule sym)
  then have "(10 ^ 12 - 1 :: int) dvd (c + int j) - (c + int i)"
    by (rule mod_eq_dvd_iff [THEN iffD1])
  moreover have "(c + int j) - (c + int i) = int j - int i"
    by simp
  ultimately have d: "(10 ^ 12 - 1 :: int) dvd int j - int i"
    by (simp only:)
  have pos: "0 < int j - int i" using ij by simp
  from zdvd_imp_le [OF d pos] have "(10 ^ 12 - 1 :: int) \<le> int j - int i" .
  with ij show False by simp
qed

lemma iter_counter_linear:
  "0 \<le> c \<Longrightarrow> c + int n < 10 ^ 12 \<Longrightarrow> (next_counter ^^ n) c = c + int n"
  by (induction n) (simp_all add: next_counter_def)

lemma snd_run_Cons:
  "snd (run_checks s (e # evs)) =
     snd (run_checks (snd (rlim_script (fst e) (snd e) rlim_window s)) evs)"
  by (simp split: prod.splits)

lemma fst_run_Cons:
  "fst (run_checks s (e # evs)) =
     fst (rlim_script (fst e) (snd e) rlim_window s)
       # fst (run_checks (snd (rlim_script (fst e) (snd e) rlim_window s)) evs)"
  by (simp split: prod.splits)

lemma snd_run_append:
  "snd (run_checks s (xs @ ys)) = snd (run_checks (snd (run_checks s xs)) ys)"
proof (induction xs arbitrary: s)
  case Nil
  show ?case by simp
next
  case (Cons e xs)
  show ?case
    unfolding append_Cons snd_run_Cons by (rule Cons.IH)
qed

lemma fst_run_append:
  "fst (run_checks s (xs @ ys)) =
     fst (run_checks s xs) @ fst (run_checks (snd (run_checks s xs)) ys)"
proof (induction xs arbitrary: s)
  case Nil
  show ?case by simp
next
  case (Cons e xs)
  show ?case
    unfolding append_Cons snd_run_Cons fst_run_Cons by (simp add: Cons.IH)
qed

lemma snd_run_snoc:
  "snd (run_checks s (evs @ [e])) =
     snd (rlim_script (fst e) (snd e) rlim_window (snd (run_checks s evs)))"
  by (simp add: snd_run_append split: prod.splits)

lemma length_fst_run: "length (fst (run_checks s evs)) = length evs"
proof (induction evs arbitrary: s)
  case Nil
  show ?case by simp
next
  case (Cons e evs)
  show ?case
    unfolding fst_run_Cons by (simp add: Cons.IH)
qed

lemma run_counter:
  "counter_ok s \<Longrightarrow>
     counter_ok (snd (run_checks s evs))
   \<and> counter (snd (run_checks s evs)) = (next_counter ^^ length evs) (counter s)"
proof (induction evs arbitrary: s)
  case Nil
  then show ?case by simp
next
  case (Cons e evs)
  let ?s1 = "snd (rlim_script (fst e) (snd e) rlim_window s)"
  have ok: "counter_ok ?s1" and c: "counter ?s1 = next_counter (counter s)"
    using script_counter [OF Cons.prems] by simp_all
  have run: "snd (run_checks s (e # evs)) = snd (run_checks ?s1 evs)"
    by (rule snd_run_Cons)
  show ?case
    unfolding run using Cons.IH [OF ok] c by (simp add: funpow_swap1)
qed

lemma run_frame:
  "\<forall>e \<in> set evs. fst e \<noteq> k' \<Longrightarrow> k' \<noteq> request_id_key \<Longrightarrow>
     snd (run_checks s evs) k' = s k'"
proof (induction evs arbitrary: s)
  case Nil
  then show ?case by simp
next
  case (Cons e evs)
  let ?s1 = "snd (rlim_script (fst e) (snd e) rlim_window s)"
  have run: "snd (run_checks s (e # evs)) = snd (run_checks ?s1 evs)"
    by (rule snd_run_Cons)
  have "snd (run_checks ?s1 evs) k' = ?s1 k'"
    using Cons.prems by (intro Cons.IH) simp_all
  also have "\<dots> = s k'"
    using Cons.prems by (intro script_frame) auto
  finally show ?case unfolding run .
qed

lemma run_window_ok: "window_ok s k' \<Longrightarrow> window_ok (snd (run_checks s evs)) k'"
proof (induction evs arbitrary: s)
  case Nil
  then show ?case by simp
next
  case (Cons e evs)
  let ?s1 = "snd (rlim_script (fst e) (snd e) rlim_window s)"
  have run: "snd (run_checks s (e # evs)) = snd (run_checks ?s1 evs)"
    by (rule snd_run_Cons)
  show ?case
    unfolding run by (intro Cons.IH script_window_ok Cons.prems)
qed

lemma run_take_Suc:
  assumes "j < length evs"
  shows "snd (run_checks s (take (Suc j) evs)) =
     snd (rlim_script (fst (evs ! j)) (snd (evs ! j)) rlim_window (snd (run_checks s (take j evs))))"
proof -
  have "take (Suc j) evs = take j evs @ [evs ! j]"
    using assms by (rule take_Suc_conv_app_nth)
  then show ?thesis
    by (simp add: snd_run_append split: prod.splits)
qed

lemma run_nth:
  assumes "j < length evs"
  shows "fst (run_checks s evs) ! j =
     fst (rlim_script (fst (evs ! j)) (snd (evs ! j)) rlim_window (snd (run_checks s (take j evs))))"
proof -
  have evs: "evs = take j evs @ evs ! j # drop (Suc j) evs"
    using assms by (rule id_take_nth_drop)
  have len: "length (fst (run_checks s (take j evs))) = j"
    using assms by (simp add: length_fst_run)
  have "fst (run_checks s evs) ! j =
      (fst (run_checks s (take j evs)) @
        fst (run_checks (snd (run_checks s (take j evs))) (evs ! j # drop (Suc j) evs))) ! j"
    by (subst evs, subst fst_run_append) simp
  also have "\<dots> = fst (run_checks (snd (run_checks s (take j evs))) (evs ! j # drop (Suc j) evs)) ! 0"
    using len by (simp add: nth_append)
  finally show ?thesis
    by (simp split: prod.splits)
qed

lemma request_ids_nth:
  "counter_ok s \<Longrightarrow> j < length evs \<Longrightarrow>
     request_ids s evs ! j = Inr ((next_counter ^^ j) (counter s) + 1)"
proof (induction evs arbitrary: s j)
  case Nil
  then show ?case by simp
next
  case (Cons e evs)
  let ?s1 = "snd (rlim_script (fst e) (snd e) rlim_window s)"
  have ok: "counter_ok ?s1" and c: "counter ?s1 = next_counter (counter s)"
    and r: "fst (INCR request_id_key s) = Inr (counter s + 1)"
    using script_counter [OF Cons.prems(1)] by simp_all
  show ?case
  proof (cases j)
    case 0
    then show ?thesis using r by simp
  next
    case (Suc j')
    with Cons.prems have "j' < length evs" by simp
    from Cons.IH [OF ok this] show ?thesis
      using Suc c by (simp add: funpow_swap1)
  qed
qed


lemma in_one_window_append:
  "in_one_window key b (xs @ ys) \<longleftrightarrow> in_one_window key b xs \<and> in_one_window key b ys"
  by (simp add: in_one_window_def)

lemma calls_of_append: "calls_of key (xs @ ys) = calls_of key xs + calls_of key ys"
  by (simp add: calls_of_def)

lemma window_state_Some: "s key = Some (Rzset z, t) \<Longrightarrow> window_state s key = z"
  by (simp add: window_state_def)

lemma window_ok_Some:
  "s key = Some (Rzset z, t) \<Longrightarrow> key \<noteq> request_id_key \<Longrightarrow> distinct (map fst z) \<Longrightarrow>
     window_ok s key"
  by (simp add: window_ok_def)

lemma window_ok_cases:
  assumes "window_ok s key"
  shows "key \<noteq> request_id_key" and "distinct (map fst (window_state s key))"
    and "window_state s key = [] \<longleftrightarrow> s key = None \<or> (\<exists>t. s key = Some (Rzset [], t))"
  using assms
  by (auto simp: window_ok_def window_state_def split: option.splits rvalue.splits)

text \<open>
  The window state of an identity that starts with none, after a history in which all
  its calls fall into one window and which is shorter than \<open>10^12\<close> calls in all: one
  entry for each of its calls, none older than the window, each member the rendering of
  one of the request ids drawn so far.
\<close>

lemma run_window_state:
  assumes c: "counter_ok s" and k: "key \<noteq> request_id_key" and none: "s key = None"
  shows "in_one_window key b evs \<Longrightarrow> length evs < 10 ^ 12 \<Longrightarrow>
      window_ok (snd (run_checks s evs)) key
    \<and> length (window_state (snd (run_checks s evs)) key) = calls_of key evs
    \<and> fst ` set (window_state (snd (run_checks s evs)) key)
        \<subseteq> (\<lambda>i. tostring ((next_counter ^^ i) (counter s) + 1)) ` {..<length evs}
    \<and> (\<forall>(m, sc) \<in> set (window_state (snd (run_checks s evs)) key). b < sc)"
proof (induction evs rule: rev_induct)
  case Nil
  show ?case
    using k none by (simp add: window_ok_def window_state_def calls_of_def)
next
  case (snoc e evs)
  let ?s1 = "snd (run_checks s evs)"
  let ?s2 = "snd (rlim_script (fst e) (snd e) rlim_window ?s1)"
  let ?ids = "\<lambda>n. (\<lambda>i. tostring ((next_counter ^^ i) (counter s) + 1)) ` {..<n}"
  have s2: "snd (run_checks s (evs @ [e])) = ?s2"
    by (rule snd_run_snoc)
  have win: "in_one_window key b evs" and len: "length evs < 10 ^ 12"
    using snoc.prems by (simp_all add: in_one_window_append)
  from snoc.IH [OF win len]
  have ok1: "window_ok ?s1 key"
    and len1: "length (window_state ?s1 key) = calls_of key evs"
    and ids1: "fst ` set (window_state ?s1 key) \<subseteq> ?ids (length evs)"
    and recent1: "\<forall>(m, sc) \<in> set (window_state ?s1 key). b < sc"
    by simp_all
  have cok1: "counter_ok ?s1" and c1: "counter ?s1 = (next_counter ^^ length evs) (counter s)"
    using run_counter [OF c, of evs] by simp_all
  have mono: "?ids (length evs) \<subseteq> ?ids (length (evs @ [e]))"
    by auto
  show ?case
  proof (cases "fst e = key")
    case False
    then have same: "?s2 key = ?s1 key"
      using k by (intro script_frame) auto
    have ws: "window_state ?s2 key = window_state ?s1 key"
      by (simp add: window_state_def same)
    have ok2: "window_ok ?s2 key"
      using ok1 by (rule script_window_ok)
    have calls: "calls_of key (evs @ [e]) = calls_of key evs"
      using False by (simp add: calls_of_def)
    show ?thesis
      unfolding s2 ws calls using ok2 len1 ids1 recent1 mono by blast
  next
    case True
    let ?z = "window_state ?s1 key"
    let ?m = "tostring (counter ?s1 + 1)"
    have time: "b < snd e" "snd e \<le> b + of_int rlim_window"
      using snoc.prems(1) True by (simp_all add: in_one_window_append in_one_window_def)
    have keep: "zset_remrangebyscore ?z 0 (snd e - of_int rlim_window) = ?z"
    proof (rule zset_remrange_keeps_all, clarify)
      fix m sc
      assume "(m, sc) \<in> set ?z" and "sc \<le> snd e - of_int rlim_window"
      with recent1 time show False by fastforce
    qed
    have fresh: "?m \<notin> fst ` set ?z"
    proof
      assume "?m \<in> fst ` set ?z"
      with ids1 obtain i where i: "i < length evs"
        and eq: "?m = tostring ((next_counter ^^ i) (counter s) + 1)"
        by auto
      have r: "0 \<le> counter s" "counter s < 10 ^ 12"
        using counter_ok_range [OF c] by simp_all
      have "0 \<le> (next_counter ^^ i) (counter s) + 1" "0 \<le> counter ?s1 + 1"
        using iter_counter_range [OF r, of i] iter_counter_range [OF r, of "length evs"] c1
        by simp_all
      from tostring_inj [OF this(2) this(1) eq]
      have "(next_counter ^^ i) (counter s) = (next_counter ^^ length evs) (counter s)"
        using c1 by simp
      moreover have "length evs < i + (10 ^ 12 - 1)"
        using snoc.prems(2) by simp
      ultimately show False
        using iter_counter_distinct [OF r i] by simp
    qed
    from script_ok [OF cok1 ok1, of rlim_window "snd e"]
    have key2: "?s2 key = Some (Rzset (zset_add ?z (snd e) ?m), Some rlim_window)"
      unfolding True keep by (auto simp: rlim_window_900)
    have "window_state ?s2 key = zset_add ?z (snd e) ?m"
      using key2 by (rule window_state_Some)
    then have ws: "window_state ?s2 key = ?z @ [(?m, snd e)]"
      by (simp only: zset_add_fresh [OF fresh])
    have d1: "distinct (map fst ?z)"
      using window_ok_cases(2) [OF ok1] .
    have "distinct (map fst (zset_add ?z (snd e) ?m))"
      using d1 by (rule distinct_zset_add)
    with key2 k have ok2: "window_ok ?s2 key"
      by (rule window_ok_Some)
    have calls: "calls_of key (evs @ [e]) = Suc (calls_of key evs)"
      using True by (simp add: calls_of_def)
    have ids2: "fst ` set (?z @ [(?m, snd e)]) \<subseteq> ?ids (length (evs @ [e]))"
      using ids1 c1 by (auto simp: lessThan_Suc)
    have recent2: "\<forall>(m, sc) \<in> set (?z @ [(?m, snd e)]). b < sc"
      using recent1 time by auto
    show ?thesis
      unfolding s2 ws calls using ok2 len1 ids2 recent2 by simp
  qed
qed

text \<open>The reply to the next call of that identity: the number of its calls, this one included.\<close>

lemma next_reply:
  assumes c: "counter_ok s" and k: "key \<noteq> request_id_key" and none: "s key = None"
    and win: "in_one_window key b (evs @ [(key, now)])" and len: "length evs + 1 < 10 ^ 12"
  shows "fst (rlim_script key now rlim_window (snd (run_checks s evs))) =
           Inr (int (calls_of key evs) + 1)"
proof -
  have l: "length (evs @ [(key, now)]) < 10 ^ 12"
    using len by simp
  from run_window_state [OF c k none win l]
  have n: "length (window_state (snd (run_checks s (evs @ [(key, now)]))) key) =
      calls_of key (evs @ [(key, now)])"
    by simp
  let ?s1 = "snd (run_checks s evs)"
  have win1: "in_one_window key b evs" and len1: "length evs < 10 ^ 12"
    using win len by (simp_all add: in_one_window_append)
  have ok1: "window_ok ?s1 key"
    using run_window_state [OF c k none win1 len1] by simp
  have cok1: "counter_ok ?s1"
    using run_counter [OF c, of evs] by simp
  from script_ok [OF cok1 ok1, of rlim_window now]
  obtain s2 where run: "rlim_script key now rlim_window ?s1 =
      (Inr (int (length (zset_add (zset_remrangebyscore (window_state ?s1 key) 0
          (now - of_int rlim_window)) now (tostring (counter ?s1 + 1))))), s2)"
    and key2: "s2 key = Some (Rzset (zset_add (zset_remrangebyscore (window_state ?s1 key) 0
          (now - of_int rlim_window)) now (tostring (counter ?s1 + 1))), Some rlim_window)"
    by (auto simp: rlim_window_900)
  have "snd (run_checks s (evs @ [(key, now)])) = s2"
    by (simp add: snd_run_snoc run)
  moreover have "window_state s2 key = zset_add (zset_remrangebyscore (window_state ?s1 key) 0
          (now - of_int rlim_window)) now (tostring (counter ?s1 + 1))"
    using key2 by (rule window_state_Some)
  ultimately have "length (zset_add (zset_remrangebyscore (window_state ?s1 key) 0
          (now - of_int rlim_window)) now (tostring (counter ?s1 + 1))) = calls_of key evs + 1"
    using n by (simp add: calls_of_def)
  with run show ?thesis by simp
qed


lemmas eval_defs =
  script_defs rlim_window_900 request_id_key_def tostring_def digit_chars.simps digit_def
  zset_add_def zset_remrangebyscore_def

lemma check_member:
  assumes "counter_ok s" "window_ok s key"
  shows "(tostring (counter s + 1), now)
           \<in> set (window_state (snd (rlim_script key now rlim_window s)) key)"
proof -
  from script_ok [OF assms, of rlim_window now]
  obtain s' where run: "snd (rlim_script key now rlim_window s) = s'"
    and key: "s' key = Some (Rzset (zset_add (zset_remrangebyscore (window_state s key) 0
          (now - of_int rlim_window)) now (tostring (counter s + 1))), Some rlim_window)"
    by (auto simp: rlim_window_900)
  have "window_state s' key = zset_add (zset_remrangebyscore (window_state s key) 0
          (now - of_int rlim_window)) now (tostring (counter s + 1))"
    using key by (rule window_state_Some)
  then show ?thesis
    unfolding run by (simp add: zset_add_member)
qed

lemma next_counter_moves:
  assumes "0 \<le> c" "c < 10 ^ 12"
  shows "tostring (next_counter c + 1) \<noteq> tostring (c + 1)"
proof
  assume eq: "tostring (next_counter c + 1) = tostring (c + 1)"
  have "0 \<le> next_counter c + 1" "0 \<le> c + 1"
    using assms next_counter_range [OF assms] by simp_all
  from tostring_inj [OF this eq] show False
    using assms by (simp add: next_counter_def split: if_splits)
qed

lemma two_members:
  assumes "(a, x) \<in> set z" "(b, y) \<in> set z" "a \<noteq> b"
  shows "2 \<le> length z"
proof -
  have "card {(a, x), (b, y)} \<le> card (set z)"
    using assms by (intro card_mono) auto
  also have "\<dots> \<le> length z"
    by (rule card_length)
  finally show ?thesis
    using assms(3) by simp
qed

subsection \<open>Claims on successive checks\<close>

text \<open>
  C9. Every authorized admission check writes the window state, also when the request
  is then rejected: the script succeeds, the keyspace after the middleware is the one the
  script left (whatever the outcome), it holds the new entry under the access key with a
  time to live of 900, and when the reply exceeds the quota the middleware raises
  \<open>RateLimitExceeded\<close> on that keyspace without calling the handler. A later check of
  the same identity made while that entry is inside its window still finds the entry and
  counts it: its reply is the size of a window state that contains it beside the new one.
\<close>

theorem rejected_check_is_recorded:
  assumes "is_authorized req" and "counter_ok rr" and "window_ok rr (access_key (keypair req))"
  shows "\<exists>c rr'. rlim_script (access_key (keypair req)) now rlim_window rr = (Inr c, rr')
      \<and> fst (snd (rlim_middleware redis_execute_script handler now req (rr, h))) = rr'
      \<and> (rate_limit (keypair req) < c \<longrightarrow>
           rlim_middleware redis_execute_script handler now req (rr, h)
             = (Inl RateLimitExceeded, (rr', h)))
      \<and> (tostring (counter rr + 1), now) \<in> set (window_state rr' (access_key (keypair req)))
      \<and> c = int (length (window_state rr' (access_key (keypair req))))
      \<and> ttl rr' (access_key (keypair req)) = Some 900
      \<and> (\<forall>now2. now2 - 900 < now \<longrightarrow>
           (\<exists>c2 rr2. rlim_script (access_key (keypair req)) now2 rlim_window rr' = (Inr c2, rr2)
              \<and> tostring (counter rr + 1) \<in> fst ` set (window_state rr2 (access_key (keypair req)))
              \<and> c2 = int (length (window_state rr2 (access_key (keypair req))))
              \<and> 2 \<le> c2))"
proof -
  let ?K = "access_key (keypair req)"
  let ?m = "tostring (counter rr + 1)"
  let ?z = "zset_add (zset_remrangebyscore (window_state rr ?K) 0 (now - of_int rlim_window)) now ?m"
  from script_ok [OF assms(2,3), of rlim_window now]
  obtain rr' where run: "rlim_script ?K now rlim_window rr = (Inr (int (length ?z)), rr')"
    and key: "rr' ?K = Some (Rzset ?z, Some rlim_window)"
    by (auto simp: rlim_window_900)
  have ws: "window_state rr' ?K = ?z"
    using key by (rule window_state_Some)
  have store: "fst (snd (rlim_middleware redis_execute_script handler now req (rr, h))) = rr'"
    using assms(1) run
    by (auto simp: middleware_defs redis_execute_script_def split: prod.splits sum.splits)
  have reject: "rate_limit (keypair req) < int (length ?z) \<Longrightarrow>
      rlim_middleware redis_execute_script handler now req (rr, h) = (Inl RateLimitExceeded, (rr', h))"
    using assms(1) run by (simp add: middleware_defs redis_execute_script_def)
  have mem: "(?m, now) \<in> set (window_state rr' ?K)"
    unfolding ws by (rule zset_add_member)
  have t: "ttl rr' ?K = Some 900"
    by (simp add: ttl_def key rlim_window_900)
  have rr': "rr' = snd (rlim_script ?K now rlim_window rr)"
    by (simp add: run)
  have cok: "counter_ok rr'" and cnt: "counter rr' = next_counter (counter rr)"
    unfolding rr' using script_counter [OF assms(2)] by simp_all
  have wok: "window_ok rr' ?K"
    unfolding rr' using assms(3) by (rule script_window_ok)
  have later: "\<exists>c2 rr2. rlim_script ?K now2 rlim_window rr' = (Inr c2, rr2)
              \<and> ?m \<in> fst ` set (window_state rr2 ?K)
              \<and> c2 = int (length (window_state rr2 ?K)) \<and> 2 \<le> c2"
    if recent: "now2 - 900 < now" for now2
  proof -
    let ?m2 = "tostring (counter rr' + 1)"
    let ?z2 = "zset_add (zset_remrangebyscore (window_state rr' ?K) 0 (now2 - of_int rlim_window)) now2 ?m2"
    from script_ok [OF cok wok, of rlim_window now2]
    obtain rr2 where run2: "rlim_script ?K now2 rlim_window rr' = (Inr (int (length ?z2)), rr2)"
      and key2: "rr2 ?K = Some (Rzset ?z2, Some rlim_window)"
      by (auto simp: rlim_window_900)
    have ws2: "window_state rr2 ?K = ?z2"
      using key2 by (rule window_state_Some)
    have ne: "?m2 \<noteq> ?m"
      unfolding cnt using counter_ok_range [OF assms(2)] by (intro next_counter_moves) simp_all
    have old: "(?m, now) \<in> set ?z2"
      using mem recent ne by (simp add: set_zset_add set_zset_remrange rlim_window_900)
    have new: "(?m2, now2) \<in> set ?z2"
      by (rule zset_add_member)
    have "2 \<le> length ?z2"
      using old new ne [symmetric] by (rule two_members)
    moreover have "?m \<in> fst ` set ?z2"
      using old by force
    ultimately show ?thesis
      using run2 ws2 by simp
  qed
  show ?thesis
    using run store reject mem ws t later by (intro exI [of _ "int (length ?z)"] exI [of _ rr']) simp
qed

end
